theory Spec2Isabelle
  imports Main
begin

section \<open>Data model of the Tokan class\<close>

text \<open>
  The embedding follows the class \<open>Tokan\<close> of the library source. Conventions:
  \<^item> DOM nodes, filter callbacks and listener callbacks are opaque references, the type
    variables \<open>'n\<close>, \<open>'f\<close> and \<open>'c\<close>; equality on them is JavaScript's reference equality.
    What a filter callback answers on a node is given by a parameter
    \<open>run :: 'f \<Rightarrow> 'n \<Rightarrow> bool\<close>; listener callbacks are assumed to return normally and not
    to call back into the router.
  \<^item> A \<open>MutationObserver\<close> object is a handle of type \<open>nat\<close>; what the class does to the
    platform (\<open>observe\<close>, \<open>disconnect\<close>, \<open>takeRecords\<close>, a call of a listener) is
    returned by \<open>unwatch\<close>, \<open>start\<close>, \<open>stop\<close> and the router as a list of effects, in
    program order.
  \<^item> A JavaScript \<open>Set\<close> iterates in insertion order, so it is a list without
    duplicates, in insertion order.
  \<^item> The counter \<open>observerId\<close> and the ids are JavaScript numbers, that is IEEE doubles,
    holding integers. They are modelled as \<open>int\<close>; the increment and the decrement of the
    counter round their exact result to the nearest double, ties to even
    (\<open>round_double\<close>): exact up to \<open>2^53\<close> in absolute value, while \<open>2^53 + 1\<close> is
    rounded back to \<open>2^53\<close>. Ids are only compared.
  \<^item> A raised \<open>Error\<close> is the left summand of a result.
\<close>

datatype 'f TokanMutationFilter = NameFilter string | CallbackFilter 'f

record 'f TokanMutationKindOptions =
  oldValue :: "bool option"
  subtree :: "bool option"
  filters_opt :: "'f TokanMutationFilter list option"

record MutationObserverInit =
  attributes :: "bool option"
  attributeOldValue :: "bool option"
  attributeFilter :: "string list option"
  subtree_init :: "bool option"
  characterData :: "bool option"
  characterDataOldValue :: "bool option"
  childList :: "bool option"

record 'f TokanObserverDescriptor =
  id_num :: int
  instance_mo :: nat
  config :: MutationObserverInit
  filters :: "'f list"
  started :: bool

record 'c TokanListeners =
  added :: "'c list"
  attributeChanged :: "'c list"
  characterDataChanged :: "'c list"
  removed :: "'c list"

record ('n, 'f, 'c) Tokan =
  target :: 'n
  observerId :: int
  observers :: "'f TokanObserverDescriptor list"
  listeners :: "'c TokanListeners"

datatype MutationRecordType = Attributes | CharacterData | ChildList

record 'n MutationRecord =
  type_rec :: MutationRecordType
  target_rec :: 'n
  attributeName :: "string option"
  oldValue_rec :: "string option"
  addedNodes :: "'n list"
  removedNodes :: "'n list"

text \<open>The second argument of a listener call: \<open>{name, oldValue}\<close>, \<open>{oldValue}\<close> or nothing.\<close>

datatype payload =
  AttrData "string option" "string option"
  | CharData "string option"
  | NoData

datatype ('n, 'c) effect =
  Observe nat 'n MutationObserverInit
  | Disconnect nat
  | TakeRecords nat
  | Call 'c 'n payload

datatype error = Error string

section \<open>Constructor\<close>

text \<open>The constructor, after its argument has been resolved to a node.\<close>

definition new_Tokan :: "'n \<Rightarrow> ('n, 'f, 'c) Tokan" where
  "new_Tokan t =
     \<lparr>target = t, observerId = 0, observers = [],
      listeners = \<lparr>added = [], attributeChanged = [], characterDataChanged = [], removed = []\<rparr>\<rparr>"

section \<open>Truthiness of the optional id argument\<close>

text \<open>\<open>if (id)\<close> for \<open>id?: number\<close>: \<open>undefined\<close> and \<open>0\<close> are falsy.\<close>

definition truthy :: "int option \<Rightarrow> bool" where
  "truthy i = (case i of None \<Rightarrow> False | Some n \<Rightarrow> n \<noteq> 0)"

section \<open>watch\<close>

text \<open>\<open>new Set(xs)\<close>: the elements of \<open>xs\<close> in order of first occurrence.\<close>

definition Set_add :: "'a list \<Rightarrow> 'a \<Rightarrow> 'a list" where
  "Set_add s x = (if x \<in> set s then s else s @ [x])"

definition new_Set :: "'a list option \<Rightarrow> 'a list" where
  "new_Set xs = (case xs of None \<Rightarrow> [] | Some ys \<Rightarrow> foldl Set_add [] ys)"

fun callbacks_only :: "'f TokanMutationFilter list \<Rightarrow> 'f list" where
  "callbacks_only [] = []"
| "callbacks_only (NameFilter a # fs) = callbacks_only fs"
| "callbacks_only (CallbackFilter c # fs) = c # callbacks_only fs"

fun strings_only :: "'f TokanMutationFilter list \<Rightarrow> string list" where
  "strings_only [] = []"
| "strings_only (NameFilter a # fs) = a # strings_only fs"
| "strings_only (CallbackFilter c # fs) = strings_only fs"

text \<open>\<open>options?.oldValue\<close>, \<open>options?.subtree\<close>, \<open>options?.filters\<close>.\<close>

definition opt_oldValue :: "'f TokanMutationKindOptions option \<Rightarrow> bool option" where
  "opt_oldValue options = (case options of None \<Rightarrow> None | Some opts \<Rightarrow> oldValue opts)"

definition opt_subtree :: "'f TokanMutationKindOptions option \<Rightarrow> bool option" where
  "opt_subtree options = (case options of None \<Rightarrow> None | Some opts \<Rightarrow> subtree opts)"

definition opt_filters ::
  "'f TokanMutationKindOptions option \<Rightarrow> 'f TokanMutationFilter list option" where
  "opt_filters options = (case options of None \<Rightarrow> None | Some opts \<Rightarrow> filters_opt opts)"

definition empty_init :: MutationObserverInit where
  "empty_init =
     \<lparr>attributes = None, attributeOldValue = None, attributeFilter = None,
      subtree_init = None, characterData = None, characterDataOldValue = None,
      childList = None\<rparr>"

definition unsupported_kind :: "string \<Rightarrow> error" where
  "unsupported_kind mutationKind =
     Error (''Expected a TokanMutationKind value but got '' @ [CHR 0x22] @ mutationKind
            @ [CHR 0x22])"

text \<open>
  Arithmetic on the counter. \<open>bit_length n\<close> is the number of binary digits of \<open>n\<close>. A
  double has a significand of 53 binary digits, so every integer up to \<open>2^53\<close> in absolute
  value is a double, and beyond that the doubles around an integer \<open>y\<close> of \<open>k\<close> binary
  digits are the multiples of \<open>2^(k - 53)\<close>. \<open>round_double y\<close> is the double nearest to
  the integer \<open>y\<close>, the one with the even significand in a tie. It is applied to \<open>x + 1\<close>
  and \<open>x - 1\<close> for a double \<open>x\<close>, which never leave the range of the finite doubles.
\<close>

fun bit_length :: "nat \<Rightarrow> nat" where
  "bit_length n = (if n = 0 then 0 else Suc (bit_length (n div 2)))"

declare bit_length.simps [simp del]

definition round_double :: "int \<Rightarrow> int" where
  "round_double y =
     (if \<bar>y\<bar> \<le> 2 ^ 53 then y
      else (let q = 2 ^ (bit_length (nat \<bar>y\<bar>) - 53);
                lo = (y div q) * q;
                r = y mod q
            in if 2 * r < q then lo
               else if q < 2 * r then lo + q
               else if even (y div q) then lo else lo + q))"

text \<open>
  \<open>watch mo mutationKind options s\<close>: \<open>mo\<close> is the handle of the object that
  \<open>new MutationObserver(...)\<close> returns in this call.
\<close>

definition watch ::
  "nat \<Rightarrow> string \<Rightarrow> 'f TokanMutationKindOptions option \<Rightarrow> ('n, 'f, 'c) Tokan
     \<Rightarrow> (error + int) \<times> ('n, 'f, 'c) Tokan" where
  "watch mo mutationKind options s =
     (let s1 = s\<lparr>observerId := round_double (observerId s + 1)\<rparr>;
          descriptor =
            \<lparr>id_num = observerId s1, instance_mo = mo, config = empty_init,
             filters = new_Set (map_option callbacks_only (opt_filters options)),
             started = False\<rparr>
      in if mutationKind = ''attributes'' then
           (Inr (observerId s1),
            s1\<lparr>observers := observers s1 @
              [descriptor\<lparr>config := empty_init
                 \<lparr>attributes := Some True,
                  attributeOldValue := opt_oldValue options,
                  attributeFilter := map_option strings_only (opt_filters options),
                  subtree_init := opt_subtree options\<rparr>\<rparr>]\<rparr>)
         else if mutationKind = ''characterData'' then
           (Inr (observerId s1),
            s1\<lparr>observers := observers s1 @
              [descriptor\<lparr>config := empty_init
                 \<lparr>characterData := Some True,
                  characterDataOldValue := opt_oldValue options,
                  subtree_init := opt_subtree options\<rparr>\<rparr>]\<rparr>)
         else if mutationKind = ''nodes'' then
           (Inr (observerId s1),
            s1\<lparr>observers := observers s1 @
              [descriptor\<lparr>config := empty_init
                 \<lparr>childList := Some True,
                  subtree_init := opt_subtree options\<rparr>\<rparr>]\<rparr>)
         else (Inl (unsupported_kind mutationKind), s1\<lparr>observerId := round_double (observerId s1 - 1)\<rparr>))"

section \<open>unwatch\<close>

text \<open>
  With an id, the loop returns in its first iteration on either branch, so only the first
  descriptor in iteration order is looked at; on an empty registry the final
  \<open>return false\<close> is reached.
\<close>

definition unwatch_id ::
  "int \<Rightarrow> ('n, 'f, 'c) Tokan \<Rightarrow> bool \<times> ('n, 'f, 'c) Tokan \<times> ('n, 'c) effect list" where
  "unwatch_id i s =
     (case observers s of
        [] \<Rightarrow> (False, s, [])
      | observer # rest \<Rightarrow>
          if id_num observer = i \<and> \<not> started observer
          then (True, s\<lparr>observers := rest\<rparr>, [Disconnect (instance_mo observer)])
          else (False, s, []))"

text \<open>
  Without an id: the loop over the registry; the Boolean says whether the loop ran to its
  end (\<open>False\<close>: it left through \<open>return false\<close>).
\<close>

fun unwatch_loop :: "'f TokanObserverDescriptor list \<Rightarrow> bool \<times> ('n, 'c) effect list" where
  "unwatch_loop [] = (True, [])"
| "unwatch_loop (observer # rest) =
     (if \<not> started observer
      then (case unwatch_loop rest of (b, es) \<Rightarrow> (b, Disconnect (instance_mo observer) # es))
      else (False, []))"

definition unwatch_all ::
  "('n, 'f, 'c) Tokan \<Rightarrow> bool \<times> ('n, 'f, 'c) Tokan \<times> ('n, 'c) effect list" where
  "unwatch_all s =
     (case unwatch_loop (observers s) of
        (True, es) \<Rightarrow> (True, s\<lparr>observers := []\<rparr>, es)
      | (False, es) \<Rightarrow> (False, s, es))"

definition unwatch ::
  "int option \<Rightarrow> ('n, 'f, 'c) Tokan \<Rightarrow> bool \<times> ('n, 'f, 'c) Tokan \<times> ('n, 'c) effect list" where
  "unwatch i s =
     (case i of
        Some n \<Rightarrow> if truthy i then unwatch_id n s else unwatch_all s
      | None \<Rightarrow> unwatch_all s)"

section \<open>on\<close>

definition on :: "string \<Rightarrow> 'c \<Rightarrow> ('n, 'f, 'c) Tokan \<Rightarrow> error + ('n, 'f, 'c) Tokan" where
  "on event callback s =
     (let ls = listeners s
      in if event = ''added'' then Inr (s\<lparr>listeners := ls\<lparr>added := added ls @ [callback]\<rparr>\<rparr>)
         else if event = ''attributeChanged'' then
           Inr (s\<lparr>listeners := ls\<lparr>attributeChanged := attributeChanged ls @ [callback]\<rparr>\<rparr>)
         else if event = ''characterDataChanged'' then
           Inr (s\<lparr>listeners := ls\<lparr>characterDataChanged := characterDataChanged ls @ [callback]\<rparr>\<rparr>)
         else if event = ''removed'' then
           Inr (s\<lparr>listeners := ls\<lparr>removed := removed ls @ [callback]\<rparr>\<rparr>)
         else Inl (Error (''Expected a TokanMutationEvent but got '' @ event @ ''.'')))"

section \<open>start and stop\<close>

text \<open>
  The loop of \<open>start(id)\<close>: a descriptor that matches and is not started is activated and
  the loop goes on; any other descriptor ends the loop (\<open>else break\<close>).
\<close>

fun start_id_loop ::
  "'n \<Rightarrow> int \<Rightarrow> 'f TokanObserverDescriptor list
     \<Rightarrow> 'f TokanObserverDescriptor list \<times> ('n, 'c) effect list" where
  "start_id_loop t i [] = ([], [])"
| "start_id_loop t i (observer # rest) =
     (if id_num observer = i \<and> \<not> started observer
      then (case start_id_loop t i rest of
              (rest', es) \<Rightarrow>
                (observer\<lparr>started := True\<rparr> # rest',
                 Observe (instance_mo observer) t (config observer) # es))
      else (observer # rest, []))"

fun start_all_loop ::
  "'n \<Rightarrow> 'f TokanObserverDescriptor list
     \<Rightarrow> 'f TokanObserverDescriptor list \<times> ('n, 'c) effect list" where
  "start_all_loop t [] = ([], [])"
| "start_all_loop t (observer # rest) =
     (case start_all_loop t rest of
        (rest', es) \<Rightarrow>
          if \<not> started observer
          then (observer\<lparr>started := True\<rparr> # rest',
                Observe (instance_mo observer) t (config observer) # es)
          else (observer # rest', es))"

definition start ::
  "int option \<Rightarrow> ('n, 'f, 'c) Tokan \<Rightarrow> ('n, 'f, 'c) Tokan \<times> ('n, 'c) effect list" where
  "start i s =
     (case (case i of
              Some n \<Rightarrow>
                if truthy i then start_id_loop (target s) n (observers s)
                else start_all_loop (target s) (observers s)
            | None \<Rightarrow> start_all_loop (target s) (observers s)) of
        (obs', es) \<Rightarrow> (s\<lparr>observers := obs'\<rparr>, es))"

fun stop_id_loop ::
  "int \<Rightarrow> 'f TokanObserverDescriptor list
     \<Rightarrow> 'f TokanObserverDescriptor list \<times> ('n, 'c) effect list" where
  "stop_id_loop i [] = ([], [])"
| "stop_id_loop i (observer # rest) =
     (if id_num observer = i \<and> started observer
      then (case stop_id_loop i rest of
              (rest', es) \<Rightarrow>
                (observer\<lparr>started := False\<rparr> # rest', Disconnect (instance_mo observer) # es))
      else (observer # rest, []))"

fun stop_all_loop ::
  "'f TokanObserverDescriptor list
     \<Rightarrow> 'f TokanObserverDescriptor list \<times> ('n, 'c) effect list" where
  "stop_all_loop [] = ([], [])"
| "stop_all_loop (observer # rest) =
     (case stop_all_loop rest of
        (rest', es) \<Rightarrow>
          if started observer
          then (observer\<lparr>started := False\<rparr> # rest', Disconnect (instance_mo observer) # es)
          else (observer # rest', es))"

definition stop ::
  "int option \<Rightarrow> ('n, 'f, 'c) Tokan \<Rightarrow> ('n, 'f, 'c) Tokan \<times> ('n, 'c) effect list" where
  "stop i s =
     (case (case i of
              Some n \<Rightarrow>
                if truthy i then stop_id_loop n (observers s) else stop_all_loop (observers s)
            | None \<Rightarrow> stop_all_loop (observers s)) of
        (obs', es) \<Rightarrow> (s\<lparr>observers := obs'\<rparr>, es))"

section \<open>observerRouter\<close>

text \<open>
  The first loop: \<open>filters\<close> starts undefined and is assigned at every descriptor whose
  instance is the observer that delivered the batch.
\<close>

fun find_filters ::
  "'f TokanObserverDescriptor list \<Rightarrow> nat \<Rightarrow> 'f list option \<Rightarrow> 'f list option" where
  "find_filters [] observer fo = fo"
| "find_filters (observerDescriptor # rest) observer fo =
     find_filters rest observer
       (if instance_mo observerDescriptor = observer then Some (filters observerDescriptor)
        else fo)"

text \<open>
  \<open>filters.forEach((filter) => { if (filter(node)) body })\<close>, where \<open>body\<close> is the list of
  calls the body makes (it does not depend on the filter).
\<close>

fun forEach_filter ::
  "('f \<Rightarrow> 'n \<Rightarrow> bool) \<Rightarrow> 'f list \<Rightarrow> 'n \<Rightarrow> ('n, 'c) effect list \<Rightarrow> ('n, 'c) effect list" where
  "forEach_filter run [] node body = []"
| "forEach_filter run (flt # rest) node body =
     (if run flt node then body else []) @ forEach_filter run rest node body"

text \<open>
  \<open>if (filters?.size) { filters.forEach(...) } else { body }\<close>, the pattern of all four
  branches of the router.
\<close>

definition if_filters ::
  "('f \<Rightarrow> 'n \<Rightarrow> bool) \<Rightarrow> 'f list option \<Rightarrow> 'n \<Rightarrow> ('n, 'c) effect list \<Rightarrow> ('n, 'c) effect list" where
  "if_filters run fo node body =
     (case fo of
        None \<Rightarrow> body
      | Some fs \<Rightarrow> if length fs \<noteq> 0 then forEach_filter run fs node body else body)"

text \<open>The loop over the listeners of an attribute or character-data record.\<close>

fun listeners_loop ::
  "('f \<Rightarrow> 'n \<Rightarrow> bool) \<Rightarrow> 'f list option \<Rightarrow> 'c list \<Rightarrow> 'n \<Rightarrow> payload \<Rightarrow> ('n, 'c) effect list" where
  "listeners_loop run fo [] node data = []"
| "listeners_loop run fo (listener # rest) node data =
     if_filters run fo node [Call listener node data] @ listeners_loop run fo rest node data"

text \<open>\<open>for (const listener of ls) listener(node)\<close>.\<close>

fun call_listeners :: "'c list \<Rightarrow> 'n \<Rightarrow> ('n, 'c) effect list" where
  "call_listeners [] node = []"
| "call_listeners (listener # rest) node = Call listener node NoData # call_listeners rest node"

text \<open>The loop over the added (or removed) nodes of a child-list record.\<close>

fun nodes_loop ::
  "('f \<Rightarrow> 'n \<Rightarrow> bool) \<Rightarrow> 'f list option \<Rightarrow> 'c list \<Rightarrow> 'n list \<Rightarrow> ('n, 'c) effect list" where
  "nodes_loop run fo ls [] = []"
| "nodes_loop run fo ls (node # rest) =
     if_filters run fo node (call_listeners ls node) @ nodes_loop run fo ls rest"

definition route_mutation ::
  "('f \<Rightarrow> 'n \<Rightarrow> bool) \<Rightarrow> 'f list option \<Rightarrow> 'c TokanListeners \<Rightarrow> 'n MutationRecord
     \<Rightarrow> ('n, 'c) effect list" where
  "route_mutation run fo ls mutation =
     (case type_rec mutation of
        Attributes \<Rightarrow>
          listeners_loop run fo (attributeChanged ls) (target_rec mutation)
            (AttrData (attributeName mutation) (oldValue_rec mutation))
      | CharacterData \<Rightarrow>
          listeners_loop run fo (characterDataChanged ls) (target_rec mutation)
            (CharData (oldValue_rec mutation))
      | ChildList \<Rightarrow>
          (if length (addedNodes mutation) > 0
           then nodes_loop run fo (added ls) (addedNodes mutation) else [])
          @ (if length (removedNodes mutation) > 0
             then nodes_loop run fo (removed ls) (removedNodes mutation) else []))"

fun mutations_loop ::
  "('f \<Rightarrow> 'n \<Rightarrow> bool) \<Rightarrow> 'f list option \<Rightarrow> 'c TokanListeners \<Rightarrow> 'n MutationRecord list
     \<Rightarrow> ('n, 'c) effect list" where
  "mutations_loop run fo ls [] = []"
| "mutations_loop run fo ls (mutation # rest) =
     route_mutation run fo ls mutation @ mutations_loop run fo ls rest"

definition observerRouter ::
  "('f \<Rightarrow> 'n \<Rightarrow> bool) \<Rightarrow> ('n, 'f, 'c) Tokan \<Rightarrow> 'n MutationRecord list \<Rightarrow> nat
     \<Rightarrow> ('n, 'c) effect list" where
  "observerRouter run s mutationList observer =
     mutations_loop run (find_filters (observers s) observer None) (listeners s) mutationList
     @ [TakeRecords observer]"

section \<open>Sequences of calls on one instance\<close>

datatype ('f, 'c) tokan_call =
  Watch string "'f TokanMutationKindOptions option"
  | Unwatch "int option"
  | On string 'c
  | Start "int option"
  | Stop "int option"

text \<open>
  One call; \<open>mo\<close> is the handle that a \<open>new MutationObserver\<close> gets if the call is a
  \<open>watch\<close>. The result is the id that a successful \<open>watch\<close> returned, if any.
\<close>

fun do_call ::
  "nat \<Rightarrow> ('f, 'c) tokan_call \<Rightarrow> ('n, 'f, 'c) Tokan \<Rightarrow> int option \<times> ('n, 'f, 'c) Tokan" where
  "do_call mo (Watch k opts) s =
     (case watch mo k opts s of (Inr i, s') \<Rightarrow> (Some i, s') | (Inl e, s') \<Rightarrow> (None, s'))"
| "do_call mo (Unwatch i) s = (None, fst (snd (unwatch i s)))"
| "do_call mo (On ev cb) s = (None, case on ev cb s of Inr s' \<Rightarrow> s' | Inl e \<Rightarrow> s)"
| "do_call mo (Start i) s = (None, fst (start i s))"
| "do_call mo (Stop i) s = (None, fst (stop i s))"

text \<open>Every \<open>watch\<close> call constructs one \<open>MutationObserver\<close>, the other calls none.\<close>

fun next_mo :: "nat \<Rightarrow> ('f, 'c) tokan_call \<Rightarrow> nat" where
  "next_mo mo (Watch k opts) = Suc mo"
| "next_mo mo c = mo"

text \<open>
  A sequence of calls, the \<open>mo\<close>-th \<open>MutationObserver\<close> being the next one constructed:
  the ids returned by the successful \<open>watch\<close> calls, in call order, and the final state.
\<close>

fun do_calls ::
  "nat \<Rightarrow> ('f, 'c) tokan_call list \<Rightarrow> ('n, 'f, 'c) Tokan \<Rightarrow> int list \<times> ('n, 'f, 'c) Tokan" where
  "do_calls mo [] s = ([], s)"
| "do_calls mo (c # cs) s =
     (case do_call mo c s of
        (r, s') \<Rightarrow>
          (case do_calls (next_mo mo c) cs s' of
             (ids, s'') \<Rightarrow> ((case r of Some i \<Rightarrow> [i] | None \<Rightarrow> []) @ ids, s'')))"

section \<open>Definitions used to state the properties\<close>

text \<open>
  The fan-out in the words of the specification: with an empty filter set a listener is
  invoked once, otherwise once per filter predicate that returns true for the node.
\<close>

definition spec_fan_out :: "('f \<Rightarrow> 'n \<Rightarrow> bool) \<Rightarrow> 'f list \<Rightarrow> 'n \<Rightarrow> nat" where
  "spec_fan_out run fs node = (if fs = [] then 1 else length (filter (\<lambda>f. run f node) fs))"

text \<open>
  The round trip \<open>watch\<close>, \<open>start(id)\<close>, \<open>stop(id)\<close>, \<open>unwatch(id)\<close>, \<open>unwatch(id)\<close>: the id,
  the result of the first \<open>unwatch\<close>, the state after it, and the result of the second.
\<close>

definition round_trip ::
  "nat \<Rightarrow> string \<Rightarrow> 'f TokanMutationKindOptions option \<Rightarrow> ('n, 'f, 'c) Tokan
     \<Rightarrow> error + (int \<times> bool \<times> ('n, 'f, 'c) Tokan \<times> bool)" where
  "round_trip mo mutationKind options s =
     (case watch mo mutationKind options s of
        (Inl e, s1) \<Rightarrow> Inl e
      | (Inr i, s1) \<Rightarrow>
          (let s2 = fst (start (Some i) s1);
               s3 = fst (stop (Some i) s2);
               r4 = unwatch (Some i) s3;
               r5 = unwatch (Some i) (fst (snd r4))
           in Inr (i, fst r4, fst (snd r4), fst r5)))"

text \<open>
  The observers of the registered descriptors are pairwise different objects, all
  constructed before the \<open>mo\<close>-th one.
\<close>

definition instances_below :: "nat \<Rightarrow> ('n, 'f, 'c) Tokan \<Rightarrow> bool" where
  "instances_below mo s =
     (distinct (map instance_mo (observers s))
      \<and> list_all (\<lambda>m. m < mo) (map instance_mo (observers s)))"

text \<open>Example instances: nodes, filters and listeners are numbers.\<close>

definition one_watcher :: "(nat, nat, nat) Tokan" where
  "one_watcher = snd (do_calls 0 [Watch ''nodes'' None] (new_Tokan 0))"

definition two_watchers :: "(nat, nat, nat) Tokan" where
  "two_watchers =
     snd (do_calls 0 [Watch ''nodes'' None, Watch ''attributes'' None] (new_Tokan 0))"

definition stopped_then_started :: "(nat, nat, nat) Tokan" where
  "stopped_then_started =
     snd (do_calls 0 [Watch ''nodes'' None, Watch ''attributes'' None, Start None,
                      Stop (Some 1)] (new_Tokan 0))"

definition filtered_watcher :: "(nat, nat, nat) Tokan" where
  "filtered_watcher =
     snd (do_calls 0
       [Watch ''attributes''
          (Some \<lparr>oldValue = Some True, subtree = None,
                 filters_opt = Some [CallbackFilter 0, NameFilter ''class'', CallbackFilter 1,
                                     CallbackFilter 5, CallbackFilter 0]\<rparr>),
        On ''attributeChanged'' 7, On ''attributeChanged'' 8, On ''added'' 9, Start None]
       (new_Tokan 0))"

definition unfiltered_watcher :: "(nat, nat, nat) Tokan" where
  "unfiltered_watcher =
     snd (do_calls 0
       [Watch ''nodes'' (Some \<lparr>oldValue = None, subtree = Some True, filters_opt = None\<rparr>),
        On ''added'' 9, On ''added'' 10, On ''removed'' 11, Start None]
       (new_Tokan 0))"

definition class_changed :: "nat MutationRecord" where
  "class_changed =
     \<lparr>type_rec = Attributes, target_rec = 3, attributeName = Some ''class'',
      oldValue_rec = Some ''old'', addedNodes = [], removedNodes = []\<rparr>"

definition two_inserted :: "nat MutationRecord" where
  "two_inserted =
     \<lparr>type_rec = ChildList, target_rec = 0, attributeName = None,
      oldValue_rec = None, addedNodes = [3, 4], removedNodes = []\<rparr>"

section \<open>Rounding of the counter\<close>

lemma round_double_exact: "\<bar>y\<bar> \<le> 2 ^ 53 \<Longrightarrow> round_double y = y"
  by (simp add: round_double_def)

lemma bit_length_eq: "2 ^ k \<le> n \<Longrightarrow> n < 2 ^ Suc k \<Longrightarrow> bit_length n = Suc k"
proof (induction k arbitrary: n)
  case 0
  then have "n = 1" by simp
  then show ?case by (simp add: bit_length.simps)
next
  case (Suc k)
  from Suc.prems have "2 ^ k \<le> n div 2" "n div 2 < 2 ^ Suc k" by simp_all
  then have "bit_length (n div 2) = Suc k" by (rule Suc.IH)
  moreover from Suc.prems have "n \<noteq> 0" by auto
  ultimately show ?case by (simp add: bit_length.simps [of n])
qed

text \<open>At \<open>2^53\<close> an increment is absorbed; a tie goes to the even significand.\<close>

lemma round_double_absorbs: "round_double (2 ^ 53 + 1) = 2 ^ 53"
proof -
  have "bit_length (nat (2 ^ 53 + 1)) = Suc 53"
    by (rule bit_length_eq) simp_all
  then show ?thesis by (simp add: round_double_def Let_def)
qed

lemma round_double_ties_to_even: "round_double (2 ^ 53 + 3) = 2 ^ 53 + 4"
proof -
  have "bit_length (nat (2 ^ 53 + 3)) = Suc 53"
    by (rule bit_length_eq) simp_all
  then show ?thesis by (simp add: round_double_def Let_def)
qed

lemma bit_length_lower: "0 < n \<Longrightarrow> 2 ^ (bit_length n - 1) \<le> n"
proof (induction n rule: bit_length.induct)
  case (1 n)
  show ?case
  proof (cases "n div 2 = 0")
    case True
    with "1.prems" have "n = 1" by (simp add: div_eq_0_iff)
    then show ?thesis by (simp add: bit_length.simps)
  next
    case False
    then have "2 ^ (bit_length (n div 2) - 1) \<le> n div 2"
      using "1.IH" "1.prems" by simp
    moreover from False have "0 < bit_length (n div 2)"
      by (simp add: bit_length.simps [of "n div 2"])
    ultimately have "2 ^ bit_length (n div 2) \<le> 2 * (n div 2)"
      by (cases "bit_length (n div 2)") simp_all
    also have "\<dots> \<le> n" by simp
    finally show ?thesis using "1.prems" by (simp add: bit_length.simps [of n])
  qed
qed

lemma round_double_pos:
  assumes "0 < y"
  shows "0 < round_double y"
proof (cases "\<bar>y\<bar> \<le> 2 ^ 53")
  case True
  with assms show ?thesis by (simp add: round_double_exact)
next
  case False
  define q :: int where "q = 2 ^ (bit_length (nat \<bar>y\<bar>) - 53)"
  have qpos: "0 < q" by (simp add: q_def)
  have "(2::nat) ^ (bit_length (nat y) - 53) \<le> 2 ^ (bit_length (nat y) - 1)"
    by (rule power_increasing) simp_all
  also have "\<dots> \<le> nat y" using assms by (intro bit_length_lower) simp
  finally have "int (2 ^ (bit_length (nat y) - 53)) \<le> int (nat y)"
    by (simp only: of_nat_le_iff)
  with assms have qy: "q \<le> y" by (simp add: q_def)
  with qpos have "0 < y div q" by (simp add: pos_imp_zdiv_pos_iff)
  then have "1 \<le> y div q" by simp
  then have "1 * q \<le> (y div q) * q" using qpos by (intro mult_right_mono) simp_all
  then have lo: "q \<le> (y div q) * q" by simp
  from False have "round_double y = (y div q) * q \<or> round_double y = (y div q) * q + q"
    by (auto simp: round_double_def Let_def q_def)
  then show ?thesis
  proof
    assume "round_double y = (y div q) * q"
    with lo qpos show ?thesis by linarith
  next
    assume "round_double y = (y div q) * q + q"
    with lo qpos show ?thesis by linarith
  qed
qed

lemma round_double_nonneg: "0 \<le> y \<Longrightarrow> 0 \<le> round_double y"
  using round_double_pos [of y] by (cases "y = 0") (simp_all add: round_double_exact)

lemma increment_exact:
  "- (2 ^ 53) \<le> x \<Longrightarrow> x < 2 ^ 53 \<Longrightarrow> round_double (x + 1) = x + 1"
  by (rule round_double_exact) (simp add: abs_le_iff)

lemma rollback_exact:
  "- (2 ^ 53) \<le> x \<Longrightarrow> x < 2 ^ 53 \<Longrightarrow> round_double (round_double (x + 1) - 1) = x"
  by (simp add: increment_exact round_double_exact abs_le_iff)

section \<open>unwatch without an id\<close>

lemma truthy_simps: "truthy None = False" "truthy (Some n) = (n \<noteq> 0)"
  by (simp_all add: truthy_def)

lemma unwatch_loop_eq:
  "unwatch_loop obs =
     (if \<exists>ob\<in>set obs. started ob
      then (False, map (\<lambda>ob. Disconnect (instance_mo ob)) (takeWhile (\<lambda>ob. \<not> started ob) obs))
      else (True, map (\<lambda>ob. Disconnect (instance_mo ob)) obs))"
  by (induction obs) auto

lemma example_states:
  "two_watchers =
     \<lparr>target = 0, observerId = 2,
      observers =
        [\<lparr>id_num = 1, instance_mo = 0,
          config = empty_init\<lparr>childList := Some True\<rparr>, filters = [], started = False\<rparr>,
         \<lparr>id_num = 2, instance_mo = 1,
          config = empty_init\<lparr>attributes := Some True\<rparr>, filters = [], started = False\<rparr>],
      listeners = \<lparr>added = [], attributeChanged = [], characterDataChanged = [], removed = []\<rparr>\<rparr>"
  "stopped_then_started =
     \<lparr>target = 0, observerId = 2,
      observers =
        [\<lparr>id_num = 1, instance_mo = 0,
          config = empty_init\<lparr>childList := Some True\<rparr>, filters = [], started = False\<rparr>,
         \<lparr>id_num = 2, instance_mo = 1,
          config = empty_init\<lparr>attributes := Some True\<rparr>, filters = [], started = True\<rparr>],
      listeners = \<lparr>added = [], attributeChanged = [], characterDataChanged = [], removed = []\<rparr>\<rparr>"
  by (simp_all add: two_watchers_def stopped_then_started_def new_Tokan_def watch_def
        round_double_exact
        start_def stop_def truthy_def opt_filters_def opt_subtree_def opt_oldValue_def
        new_Set_def empty_init_def)

text \<open>
  Claim C5. \<open>unwatch()\<close> without an id returns \<open>false\<close> whenever some descriptor is
  started, and then leaves the whole instance as it was, so every started descriptor is
  still registered and still started (the only effects are the disconnects of the
  unstarted descriptors that come before the first started one). When no descriptor is
  started it disconnects every descriptor, empties the registry and returns \<open>true\<close>.
\<close>

theorem unwatch_without_id:
  "((\<exists>ob\<in>set (observers s). started ob) \<longrightarrow>
      unwatch None s =
        (False, s, map (\<lambda>ob. Disconnect (instance_mo ob))
                     (takeWhile (\<lambda>ob. \<not> started ob) (observers s))))
   \<and> ((\<forall>ob\<in>set (observers s). \<not> started ob) \<longrightarrow>
      unwatch None s =
        (True, s\<lparr>observers := []\<rparr>, map (\<lambda>ob. Disconnect (instance_mo ob)) (observers s)))"
  by (simp add: unwatch_def unwatch_all_def unwatch_loop_eq)

theorem unwatch_without_id_witness:
  "(\<exists>ob\<in>set (observers stopped_then_started). started ob)
   \<and> unwatch None stopped_then_started = (False, stopped_then_started, [Disconnect 0])
   \<and> map started (observers two_watchers) = [False, False]
   \<and> unwatch None two_watchers =
       (True, two_watchers\<lparr>observers := []\<rparr>, [Disconnect 0, Disconnect 1])"
  using unwatch_without_id [of stopped_then_started] unwatch_without_id [of two_watchers]
  by (simp add: example_states)

section \<open>A failing unwatch\<close>

text \<open>
  Claim C9. Whenever \<open>unwatch\<close> returns \<open>false\<close>, with or without an id, the instance is
  exactly as before: no descriptor was removed and no \<open>started\<close> flag changed. With an id
  nothing was done to the platform; without one, the unstarted descriptors in front of
  the first started one have been disconnected.
\<close>

theorem unwatch_false_keeps_registry:
  assumes "fst (unwatch i s) = False"
  shows "fst (snd (unwatch i s)) = s
       \<and> snd (snd (unwatch i s)) =
           map (\<lambda>ob. Disconnect (instance_mo ob))
             (if truthy i then [] else takeWhile (\<lambda>ob. \<not> started ob) (observers s))"
  using assms
  by (cases i)
     (auto simp: unwatch_def unwatch_all_def unwatch_id_def unwatch_loop_eq truthy_simps
           split: list.splits if_splits)

theorem unwatch_false_keeps_registry_witness:
  "fst (unwatch None stopped_then_started) = False
   \<and> fst (snd (unwatch None stopped_then_started)) = stopped_then_started
   \<and> snd (snd (unwatch None stopped_then_started)) = [Disconnect 0]
   \<and> fst (unwatch (Some 2) stopped_then_started) = False
   \<and> fst (snd (unwatch (Some 2) stopped_then_started)) = stopped_then_started
   \<and> snd (snd (unwatch (Some 2) stopped_then_started)) = []"
  using unwatch_false_keeps_registry [of None stopped_then_started]
    unwatch_false_keeps_registry [of "Some 2" stopped_then_started]
  by (simp add: example_states unwatch_def unwatch_all_def unwatch_id_def truthy_def)

section \<open>watch with an unsupported kind\<close>

text \<open>
  Claim C6. \<open>watch\<close> with a kind that is none of \<open>attributes\<close>, \<open>characterData\<close>, \<open>nodes\<close>
  raises the error, and the instance afterwards is the instance before the call: the
  counter has been decremented again and no descriptor was added. This holds while the
  counter is below \<open>2^53\<close>, where its increment and its decrement are exact.
\<close>

theorem watch_unsupported_kind:
  assumes "mutationKind \<noteq> ''attributes''" "mutationKind \<noteq> ''characterData''"
    "mutationKind \<noteq> ''nodes''"
    and "- (2 ^ 53) \<le> observerId s" and "observerId s < 2 ^ 53"
  shows "watch mo mutationKind options s = (Inl (unsupported_kind mutationKind), s)"
  using assms
  by (simp add: watch_def Let_def increment_exact round_double_exact abs_le_iff)

theorem watch_unsupported_kind_witness:
  "''childList'' \<noteq> ''attributes'' \<and> ''childList'' \<noteq> ''characterData''
   \<and> ''childList'' \<noteq> ''nodes''
   \<and> - (2 ^ 53) \<le> observerId two_watchers \<and> observerId two_watchers < 2 ^ 53
   \<and> watch 2 ''childList'' None two_watchers =
       (Inl (Error (''Expected a TokanMutationKind value but got '' @ [CHR 0x22]
                     @ ''childList'' @ [CHR 0x22])), two_watchers)"
  using watch_unsupported_kind [of "''childList''" two_watchers 2 None]
  by (simp add: unsupported_kind_def example_states)

section \<open>The loops of start and stop without an id\<close>

lemma start_all_loop_eq:
  "start_all_loop t obs =
     (map (\<lambda>ob. ob\<lparr>started := True\<rparr>) obs,
      map (\<lambda>ob. Observe (instance_mo ob) t (config ob)) (filter (\<lambda>ob. \<not> started ob) obs))"
  by (induction obs) auto

lemma stop_all_loop_eq:
  "stop_all_loop obs =
     (map (\<lambda>ob. ob\<lparr>started := False\<rparr>) obs,
      map (\<lambda>ob. Disconnect (instance_mo ob)) (filter started obs))"
  by (induction obs) auto

lemma start_id_loop_ids: "map id_num (fst (start_id_loop t i obs)) = map id_num obs"
  by (induction obs) (auto split: prod.splits)

lemma stop_id_loop_ids: "map id_num (fst (stop_id_loop i obs)) = map id_num obs"
  by (induction obs) (auto split: prod.splits)

lemma start_ids: "map id_num (observers (fst (start i s))) = map id_num (observers s)"
  by (simp add: start_def case_prod_beta start_id_loop_ids start_all_loop_eq comp_def
        split: option.splits)

lemma stop_ids: "map id_num (observers (fst (stop i s))) = map id_num (observers s)"
  by (simp add: stop_def case_prod_beta stop_id_loop_ids stop_all_loop_eq comp_def
        split: option.splits)

lemma start_observerId: "observerId (fst (start i s)) = observerId s"
  by (simp add: start_def split: prod.splits)

lemma stop_observerId: "observerId (fst (stop i s)) = observerId s"
  by (simp add: stop_def split: prod.splits)

lemma unwatch_observerId: "observerId (fst (snd (unwatch i s))) = observerId s"
  by (auto simp: unwatch_def unwatch_id_def unwatch_all_def
        split: option.splits list.splits prod.splits bool.splits)

lemma unwatch_observers: "set (observers (fst (snd (unwatch i s)))) \<subseteq> set (observers s)"
  by (auto simp: unwatch_def unwatch_id_def unwatch_all_def
        split: option.splits list.splits prod.splits bool.splits)

lemma on_unchanged:
  "on ev cb s = Inr s' \<Longrightarrow> observerId s' = observerId s \<and> observers s' = observers s"
  by (auto simp: on_def Let_def split: if_splits)

lemma watch_cases:
  "watch mo k opts s = (r, s') \<Longrightarrow>
     (r = Inl (unsupported_kind k)
      \<and> s' = s\<lparr>observerId := round_double (round_double (observerId s + 1) - 1)\<rparr>)
     \<or> (r = Inr (round_double (observerId s + 1))
         \<and> observerId s' = round_double (observerId s + 1)
         \<and> (\<exists>d. observers s' = observers s @ [d]
                 \<and> id_num d = round_double (observerId s + 1)
                 \<and> instance_mo d = mo \<and> \<not> started d))"
  by (auto simp: watch_def Let_def split: if_splits)

lemma watch_cases_exact:
  assumes "watch mo k opts s = (r, s')"
    and "- (2 ^ 53) \<le> observerId s" and "observerId s < 2 ^ 53"
  shows "(r = Inl (unsupported_kind k) \<and> s' = s)
     \<or> (r = Inr (observerId s + 1) \<and> observerId s' = observerId s + 1
         \<and> (\<exists>d. observers s' = observers s @ [d] \<and> id_num d = observerId s + 1
                 \<and> instance_mo d = mo \<and> \<not> started d))"
  using watch_cases [OF assms(1)] assms(2,3)
  by (simp add: increment_exact round_double_exact abs_le_iff)

section \<open>Ids returned by watch\<close>

lemma do_call_counter:
  assumes "do_call mo c s = (r, s')"
    and "- (2 ^ 53) \<le> observerId s" and "observerId s < 2 ^ 53"
  shows "(r = None \<and> observerId s' = observerId s)
       \<or> (r = Some (observerId s + 1) \<and> observerId s' = observerId s + 1)"
proof (cases c)
  case (Watch k opts)
  obtain w s1 where w: "watch mo k opts s = (w, s1)" by (cases "watch mo k opts s")
  from watch_cases_exact [OF w assms(2,3)] assms(1) Watch w show ?thesis by auto
next
  case (Unwatch i)
  with assms show ?thesis by (auto simp: unwatch_observerId)
next
  case (On ev cb)
  with assms show ?thesis by (auto split: sum.splits dest: on_unchanged)
next
  case (Start i)
  with assms show ?thesis by (auto simp: start_observerId)
next
  case (Stop i)
  with assms show ?thesis by (auto simp: stop_observerId)
qed

lemma do_calls_ids:
  "do_calls mo cs s = (ids, s') \<Longrightarrow> 0 \<le> observerId s \<Longrightarrow>
     observerId s + int (length ids) < 2 ^ 53 \<Longrightarrow>
     observerId s' = observerId s + int (length ids) \<and> sorted_wrt (<) ids
     \<and> (\<forall>i\<in>set ids. observerId s < i \<and> i \<le> observerId s')"
proof (induction cs arbitrary: mo s ids s')
  case Nil
  then show ?case by simp
next
  case (Cons c cs)
  obtain r s1 where c: "do_call mo c s = (r, s1)" by (cases "do_call mo c s")
  obtain ids1 s2 where cs: "do_calls (next_mo mo c) cs s1 = (ids1, s2)"
    by (cases "do_calls (next_mo mo c) cs s1")
  from Cons.prems(1) c cs have ids: "ids = (case r of Some i \<Rightarrow> [i] | None \<Rightarrow> []) @ ids1"
    and s': "s' = s2" by simp_all
  from Cons.prems(2,3) have low: "- (2 ^ 53) \<le> observerId s" and high: "observerId s < 2 ^ 53"
    by simp_all
  from do_call_counter [OF c low high] show ?case
  proof
    assume none: "r = None \<and> observerId s1 = observerId s"
    with ids Cons.prems(2,3) have "0 \<le> observerId s1"
      and "observerId s1 + int (length ids1) < 2 ^ 53" by simp_all
    with cs have "observerId s2 = observerId s1 + int (length ids1) \<and> sorted_wrt (<) ids1
      \<and> (\<forall>i\<in>set ids1. observerId s1 < i \<and> i \<le> observerId s2)"
      by (rule Cons.IH)
    with none ids s' show ?thesis by auto
  next
    assume some: "r = Some (observerId s + 1) \<and> observerId s1 = observerId s + 1"
    with ids Cons.prems(2,3) have "0 \<le> observerId s1"
      and "observerId s1 + int (length ids1) < 2 ^ 53" by simp_all
    with cs have "observerId s2 = observerId s1 + int (length ids1) \<and> sorted_wrt (<) ids1
      \<and> (\<forall>i\<in>set ids1. observerId s1 < i \<and> i \<le> observerId s2)"
      by (rule Cons.IH)
    with some ids s' show ?thesis by auto
  qed
qed

text \<open>
  Claim C7. Over any sequence of calls on a new instance (\<open>watch\<close> with supported and
  unsupported kinds, \<open>unwatch\<close>, \<open>on\<close>, \<open>start\<close>, \<open>stop\<close>) with fewer than \<open>2^53\<close>
  successful \<open>watch\<close> calls, every id returned by a successful \<open>watch\<close> is positive and
  strictly greater than every id returned before it, and no id is returned twice,
  whatever has been removed by \<open>unwatch\<close> in between.
\<close>

theorem watch_ids_strictly_increasing:
  assumes "do_calls mo calls (new_Tokan t) = (ids, s')" and "length ids < 2 ^ 53"
  shows "(\<forall>k<length ids. 0 < ids ! k \<and> (\<forall>j<k. ids ! j < ids ! k)) \<and> distinct ids"
proof -
  from assms(2) have "int (length ids) < int (2 ^ 53)" by (simp only: of_nat_less_iff)
  then have bound: "observerId (new_Tokan t) + int (length ids) < 2 ^ 53"
    by (simp add: new_Tokan_def)
  have start: "0 \<le> observerId (new_Tokan t)"
    by (simp add: new_Tokan_def)
  from do_calls_ids [OF assms(1) start bound] have sorted: "sorted_wrt (<) ids" and pos: "\<forall>i\<in>set ids. 0 < i"
    by (simp_all add: new_Tokan_def)
  from sorted have "distinct ids" by (simp add: strict_sorted_iff)
  moreover from sorted have "\<forall>k<length ids. \<forall>j<k. ids ! j < ids ! k"
    by (simp add: sorted_wrt_iff_nth_less)
  ultimately show ?thesis using pos by simp
qed

theorem watch_ids_strictly_increasing_witness:
  "do_calls 0 [Watch ''nodes'' None, Watch ''childList'' None, Watch ''attributes'' None,
               Unwatch (Some 1), Watch ''characterData'' None] (new_Tokan (0::nat))
     = ([1, 2, 3],
        \<lparr>target = 0, observerId = 3,
         observers =
           [\<lparr>id_num = 2, instance_mo = 2,
             config = empty_init\<lparr>attributes := Some True\<rparr>, filters = ([]::nat list),
             started = False\<rparr>,
            \<lparr>id_num = 3, instance_mo = 3,
             config = empty_init\<lparr>characterData := Some True\<rparr>, filters = [],
             started = False\<rparr>],
         listeners = \<lparr>added = ([]::nat list), attributeChanged = [],
                      characterDataChanged = [], removed = []\<rparr>\<rparr>)
   \<and> length [1, 2, 3 :: int] < 2 ^ 53
   \<and> (0 < [1, 2, 3 :: int] ! 2 \<and> [1, 2, 3 :: int] ! 0 < [1, 2, 3] ! 2
        \<and> [1, 2, 3 :: int] ! 1 < [1, 2, 3] ! 2)
   \<and> distinct [1, 2, 3 :: int]"
proof -
  have run: "do_calls 0 [Watch ''nodes'' None, Watch ''childList'' None,
               Watch ''attributes'' None, Unwatch (Some 1), Watch ''characterData'' None]
             (new_Tokan (0::nat))
     = ([1, 2, 3],
        \<lparr>target = 0, observerId = 3,
         observers =
           [\<lparr>id_num = 2, instance_mo = 2,
             config = empty_init\<lparr>attributes := Some True\<rparr>, filters = ([]::nat list),
             started = False\<rparr>,
            \<lparr>id_num = 3, instance_mo = 3,
             config = empty_init\<lparr>characterData := Some True\<rparr>, filters = [],
             started = False\<rparr>],
         listeners = \<lparr>added = ([]::nat list), attributeChanged = [],
                      characterDataChanged = [], removed = []\<rparr>\<rparr>)"
    by (simp add: new_Tokan_def watch_def round_double_exact unwatch_def unwatch_id_def
          truthy_def
          opt_filters_def opt_subtree_def opt_oldValue_def new_Set_def empty_init_def)
  from watch_ids_strictly_increasing [OF run] run show ?thesis by simp
qed

section \<open>The id 0\<close>

lemma ids_positive_cong:
  assumes "map id_num xs = map id_num ys" and "\<forall>d\<in>set ys. 0 < id_num d"
  shows "\<forall>d\<in>set xs. 0 < id_num d"
proof -
  from assms(2) have "\<forall>x\<in>set (map id_num ys). 0 < x" by simp
  with assms(1) have "\<forall>x\<in>set (map id_num xs). 0 < x" by simp
  then show ?thesis by simp
qed

lemma do_call_positive:
  assumes "do_call mo c s = (r, s')" and "0 \<le> observerId s"
    and "\<forall>d\<in>set (observers s). 0 < id_num d"
  shows "0 \<le> observerId s' \<and> (\<forall>d\<in>set (observers s'). 0 < id_num d)"
proof (cases c)
  case (Watch k opts)
  obtain w s1 where w: "watch mo k opts s = (w, s1)" by (cases "watch mo k opts s")
  with assms(1) Watch have s1: "s1 = s'" by (auto split: sum.splits)
  from assms(2) have inc: "0 < round_double (observerId s + 1)"
    by (intro round_double_pos) simp
  then have dec: "0 \<le> round_double (round_double (observerId s + 1) - 1)"
    by (intro round_double_nonneg) simp
  from watch_cases [OF w] show ?thesis
  proof
    assume "w = Inl (unsupported_kind k)
      \<and> s1 = s\<lparr>observerId := round_double (round_double (observerId s + 1) - 1)\<rparr>"
    with s1 dec assms(3) show ?thesis by auto
  next
    assume "w = Inr (round_double (observerId s + 1))
      \<and> observerId s1 = round_double (observerId s + 1)
      \<and> (\<exists>d. observers s1 = observers s @ [d]
              \<and> id_num d = round_double (observerId s + 1)
              \<and> instance_mo d = mo \<and> \<not> started d)"
    with s1 inc assms(3) show ?thesis by auto
  qed
next
  case (Unwatch i)
  with assms unwatch_observers [of i s] show ?thesis by (auto simp: unwatch_observerId)
next
  case (On ev cb)
  with assms show ?thesis by (auto split: sum.splits dest: on_unchanged)
next
  case (Start i)
  from start_ids assms(3) have "\<forall>d\<in>set (observers (fst (start i s))). 0 < id_num d"
    by (rule ids_positive_cong)
  with assms Start show ?thesis by (auto simp: start_observerId)
next
  case (Stop i)
  from stop_ids assms(3) have "\<forall>d\<in>set (observers (fst (stop i s))). 0 < id_num d"
    by (rule ids_positive_cong)
  with assms Stop show ?thesis by (auto simp: stop_observerId)
qed

lemma do_calls_positive:
  "0 \<le> observerId s \<Longrightarrow> \<forall>d\<in>set (observers s). 0 < id_num d \<Longrightarrow>
     \<forall>d\<in>set (observers (snd (do_calls mo cs s))). 0 < id_num d"
proof (induction cs arbitrary: mo s)
  case Nil
  then show ?case by simp
next
  case (Cons c cs)
  obtain r s1 where c: "do_call mo c s = (r, s1)" by (cases "do_call mo c s")
  from do_call_positive [OF c Cons.prems]
  have "\<forall>d\<in>set (observers (snd (do_calls (next_mo mo c) cs s1))). 0 < id_num d"
    by (intro Cons.IH) simp_all
  with c show ?case by (simp split: prod.splits)
qed

text \<open>
  After any sequence of calls on a new instance every registered descriptor has a
  positive id, so \<open>0\<close> names no descriptor.
\<close>

lemma registered_ids_positive:
  "\<forall>d\<in>set (observers (snd (do_calls mo calls (new_Tokan t)))). 0 < id_num d"
  by (rule do_calls_positive) (simp_all add: new_Tokan_def)

text \<open>The argument \<open>0\<close> is falsy, so each call with it is the call without an argument.\<close>

lemma zero_id_is_no_id:
  "start (Some 0) s = start None s"
  "stop (Some 0) s = stop None s"
  "unwatch (Some 0) s = unwatch None s"
  by (simp_all add: start_def stop_def unwatch_def truthy_def)

text \<open>
  \<open>start()\<close> subscribes every unstarted descriptor, in registry order, and marks every
  descriptor started; \<open>stop()\<close> disconnects every started descriptor and marks every
  descriptor not started.
\<close>

lemma start_without_id:
  "start None s =
     (s\<lparr>observers := map (\<lambda>ob. ob\<lparr>started := True\<rparr>) (observers s)\<rparr>,
      map (\<lambda>ob. Observe (instance_mo ob) (target s) (config ob))
        (filter (\<lambda>ob. \<not> started ob) (observers s)))"
  by (simp add: start_def start_all_loop_eq)

lemma stop_without_id:
  "stop None s =
     (s\<lparr>observers := map (\<lambda>ob. ob\<lparr>started := False\<rparr>) (observers s)\<rparr>,
      map (\<lambda>ob. Disconnect (instance_mo ob)) (filter started (observers s)))"
  by (simp add: stop_def stop_all_loop_eq)


section \<open>The registered observers are pairwise different\<close>

lemma start_id_loop_instances:
  "map instance_mo (fst (start_id_loop t i obs)) = map instance_mo obs"
  by (induction obs) (auto split: prod.splits)

lemma stop_id_loop_instances:
  "map instance_mo (fst (stop_id_loop i obs)) = map instance_mo obs"
  by (induction obs) (auto split: prod.splits)

lemma start_instances:
  "map instance_mo (observers (fst (start i s))) = map instance_mo (observers s)"
  by (simp add: start_def case_prod_beta start_id_loop_instances start_all_loop_eq comp_def
        split: option.splits)

lemma stop_instances:
  "map instance_mo (observers (fst (stop i s))) = map instance_mo (observers s)"
  by (simp add: stop_def case_prod_beta stop_id_loop_instances stop_all_loop_eq comp_def
        split: option.splits)

lemma unwatch_suffix: "\<exists>pre. observers s = pre @ observers (fst (snd (unwatch i s)))"
  by (auto simp: unwatch_def unwatch_id_def unwatch_all_def
        split: option.splits list.splits prod.splits bool.splits)

lemma instances_below_cong:
  "map instance_mo (observers s') = map instance_mo (observers s) \<Longrightarrow>
     instances_below mo s' = instances_below mo s"
  by (simp only: instances_below_def)

lemma instances_below_watch:
  assumes "instances_below mo s" and "observers s' = observers s @ [d]"
    and "instance_mo d = mo"
  shows "instances_below (Suc mo) s'"
proof -
  from assms(1) have below: "\<forall>x\<in>set (observers s). instance_mo x < mo"
    and dist: "distinct (map instance_mo (observers s))"
    by (simp_all add: instances_below_def list_all_iff)
  from below have "mo \<notin> instance_mo ` set (observers s)" by auto
  with below dist assms(2,3) show ?thesis
    by (auto simp: instances_below_def list_all_iff less_Suc_eq)
qed

lemma do_call_instances:
  assumes "do_call mo c s = (r, s')" and "instances_below mo s"
  shows "instances_below (next_mo mo c) s'"
proof (cases c)
  case (Watch k opts)
  obtain w s1 where w: "watch mo k opts s = (w, s1)" by (cases "watch mo k opts s")
  with assms(1) Watch have s1: "s1 = s'" by (auto split: sum.splits)
  from watch_cases [OF w] show ?thesis
  proof
    assume "w = Inl (unsupported_kind k)
      \<and> s1 = s\<lparr>observerId := round_double (round_double (observerId s + 1) - 1)\<rparr>"
    with s1 assms(2) Watch show ?thesis
      by (auto simp: instances_below_def list_all_iff less_Suc_eq)
  next
    assume "w = Inr (round_double (observerId s + 1))
      \<and> observerId s1 = round_double (observerId s + 1)
      \<and> (\<exists>d. observers s1 = observers s @ [d]
              \<and> id_num d = round_double (observerId s + 1)
              \<and> instance_mo d = mo \<and> \<not> started d)"
    then obtain d where "observers s1 = observers s @ [d]" "instance_mo d = mo" by blast
    with assms(2) s1 Watch show ?thesis by (simp add: instances_below_watch)
  qed
next
  case (Unwatch i)
  from unwatch_suffix [of s i] obtain pre
    where "observers s = pre @ observers (fst (snd (unwatch i s)))" by blast
  with assms Unwatch show ?thesis
    by (auto simp: instances_below_def list_all_iff)
next
  case (On ev cb)
  with assms show ?thesis
    by (auto simp: instances_below_def split: sum.splits dest: on_unchanged)
next
  case (Start i)
  with assms show ?thesis by (auto simp: instances_below_cong [OF start_instances])
next
  case (Stop i)
  with assms show ?thesis by (auto simp: instances_below_cong [OF stop_instances])
qed

lemma do_calls_instances:
  "instances_below mo s \<Longrightarrow> distinct (map instance_mo (observers (snd (do_calls mo cs s))))"
proof (induction cs arbitrary: mo s)
  case Nil
  then show ?case by (simp add: instances_below_def)
next
  case (Cons c cs)
  obtain r s1 where c: "do_call mo c s = (r, s1)" by (cases "do_call mo c s")
  obtain ids s2 where cs: "do_calls (next_mo mo c) cs s1 = (ids, s2)"
    by (cases "do_calls (next_mo mo c) cs s1")
  from do_call_instances [OF c Cons.prems]
  have "distinct (map instance_mo (observers (snd (do_calls (next_mo mo c) cs s1))))"
    by (rule Cons.IH)
  with c cs show ?case by simp
qed

lemma new_instance_distinct_observers:
  "distinct (map instance_mo (observers (snd (do_calls mo cs (new_Tokan t)))))"
  by (rule do_calls_instances) (simp add: instances_below_def new_Tokan_def)

section \<open>Routing of mutation records\<close>

lemma forEach_filter_eq:
  "forEach_filter run fs node body =
     concat (replicate (length (filter (\<lambda>f. run f node) fs)) body)"
  by (induction fs) auto

lemma if_filters_eq:
  "if_filters run (Some fs) node body = concat (replicate (spec_fan_out run fs node) body)"
  by (simp add: if_filters_def spec_fan_out_def forEach_filter_eq)

lemma if_filters_None: "if_filters run None node body = body"
  by (simp add: if_filters_def)

lemma concat_replicate_single: "concat (replicate k [x]) = replicate k x"
  by (induction k) auto

lemma listeners_loop_eq:
  "listeners_loop run (Some fs) ls node data =
     concat (map (\<lambda>l. replicate (spec_fan_out run fs node) (Call l node data)) ls)"
  by (induction ls) (auto simp: if_filters_eq concat_replicate_single)

lemma call_listeners_eq: "call_listeners ls node = map (\<lambda>l. Call l node NoData) ls"
  by (induction ls) auto

lemma nodes_loop_eq:
  "nodes_loop run (Some fs) ls nodes =
     concat (map (\<lambda>n. concat (replicate (spec_fan_out run fs n)
                                 (map (\<lambda>l. Call l n NoData) ls))) nodes)"
  by (induction nodes) (auto simp: if_filters_eq call_listeners_eq)

lemma mutations_loop_append:
  "mutations_loop run fo ls (xs @ ys) = mutations_loop run fo ls xs @ mutations_loop run fo ls ys"
  by (induction xs) auto

lemma find_filters_miss:
  "\<forall>ob\<in>set obs. instance_mo ob \<noteq> observer \<Longrightarrow> find_filters obs observer fo = fo"
  by (induction obs arbitrary: fo) auto

lemma find_filters_hit:
  "distinct (map instance_mo obs) \<Longrightarrow> d \<in> set obs \<Longrightarrow>
     find_filters obs (instance_mo d) fo = Some (filters d)"
proof (induction obs arbitrary: fo)
  case Nil
  then show ?case by simp
next
  case (Cons ob obs)
  show ?case
  proof (cases "d = ob")
    case True
    with Cons.prems have "instance_mo d \<notin> instance_mo ` set obs"
      by simp
    then have "\<forall>x\<in>set obs. instance_mo x \<noteq> instance_mo d"
      by (metis imageI)
    with True show ?thesis by (simp add: find_filters_miss)
  next
    case False
    with Cons show ?thesis by auto
  qed
qed

lemma router_example_states:
  "filtered_watcher =
     \<lparr>target = 0, observerId = 1,
      observers =
        [\<lparr>id_num = 1, instance_mo = 0,
          config = empty_init\<lparr>attributes := Some True, attributeOldValue := Some True,
                              attributeFilter := Some [''class'']\<rparr>,
          filters = [0, 1, 5], started = True\<rparr>],
      listeners = \<lparr>added = [9], attributeChanged = [7, 8], characterDataChanged = [],
                   removed = []\<rparr>\<rparr>"
  "unfiltered_watcher =
     \<lparr>target = 0, observerId = 1,
      observers =
        [\<lparr>id_num = 1, instance_mo = 0,
          config = empty_init\<lparr>childList := Some True, subtree_init := Some True\<rparr>,
          filters = [], started = True\<rparr>],
      listeners = \<lparr>added = [9, 10], attributeChanged = [], characterDataChanged = [],
                   removed = [11]\<rparr>\<rparr>"
  by (simp_all add: filtered_watcher_def unfiltered_watcher_def new_Tokan_def watch_def
        round_double_exact
        start_def stop_def truthy_def opt_filters_def opt_subtree_def opt_oldValue_def
        new_Set_def Set_add_def empty_init_def on_def)

text \<open>
  Claim C1. Let the batch be delivered by the observer of the registered descriptor \<open>d\<close>.
  For an attribute record in the batch, the router calls each listener of
  \<open>attributeChanged\<close>, in registration order, \<open>spec_fan_out\<close> times in a row: once per
  filter of \<open>d\<close> that returns true for the record's target when \<open>d\<close> has filters, once
  when it has none; every call gets the target and \<open>{name, oldValue}\<close>. The calls for
  the record stand between those for the records before and after it.
\<close>

theorem attribute_record_dispatch:
  assumes "distinct (map instance_mo (observers s))" and "d \<in> set (observers s)"
    and "type_rec mutation = Attributes"
  shows "observerRouter run s (before @ mutation # after) (instance_mo d) =
     mutations_loop run (Some (filters d)) (listeners s) before
     @ concat (map (\<lambda>listener.
                 replicate (spec_fan_out run (filters d) (target_rec mutation))
                   (Call listener (target_rec mutation)
                      (AttrData (attributeName mutation) (oldValue_rec mutation))))
               (attributeChanged (listeners s)))
     @ mutations_loop run (Some (filters d)) (listeners s) after
     @ [TakeRecords (instance_mo d)]"
  using assms
  by (simp add: observerRouter_def find_filters_hit mutations_loop_append route_mutation_def
        listeners_loop_eq)

theorem attribute_record_dispatch_witness:
  "distinct (map instance_mo (observers filtered_watcher))
   \<and> hd (observers filtered_watcher) \<in> set (observers filtered_watcher)
   \<and> filters (hd (observers filtered_watcher)) = [0, 1, 5]
   \<and> type_rec class_changed = Attributes
   \<and> observerRouter (\<lambda>f n. f < n) filtered_watcher [class_changed] 0 =
       [Call 7 3 (AttrData (Some ''class'') (Some ''old'')),
        Call 7 3 (AttrData (Some ''class'') (Some ''old'')),
        Call 8 3 (AttrData (Some ''class'') (Some ''old'')),
        Call 8 3 (AttrData (Some ''class'') (Some ''old'')),
        TakeRecords 0]"
  using attribute_record_dispatch [of filtered_watcher "hd (observers filtered_watcher)"
      class_changed "\<lambda>f n. f < n" "[]" "[]"]
  by (simp add: router_example_states class_changed_def spec_fan_out_def)

text \<open>
  Claim C8. For a child-list record delivered by the observer of the registered
  descriptor \<open>d\<close>, the router goes through the added nodes in list order and, for each
  node, calls all \<open>added\<close> listeners with the node alone \<open>spec_fan_out\<close> times (once per
  filter that returns true for the node, or once when \<open>d\<close> has no filters); then it does
  the same with the removed nodes and the \<open>removed\<close> listeners. In particular, with no
  filters and two added nodes, each \<open>added\<close> listener is called once for the first node
  and then once for the second.
\<close>

theorem child_list_record_dispatch:
  assumes "distinct (map instance_mo (observers s))" and "d \<in> set (observers s)"
    and "type_rec mutation = ChildList"
  shows "(observerRouter run s (before @ mutation # after) (instance_mo d) =
     mutations_loop run (Some (filters d)) (listeners s) before
     @ concat (map (\<lambda>node. concat (replicate (spec_fan_out run (filters d) node)
                                     (map (\<lambda>listener. Call listener node NoData)
                                        (added (listeners s)))))
               (addedNodes mutation))
     @ concat (map (\<lambda>node. concat (replicate (spec_fan_out run (filters d) node)
                                     (map (\<lambda>listener. Call listener node NoData)
                                        (removed (listeners s)))))
               (removedNodes mutation))
     @ mutations_loop run (Some (filters d)) (listeners s) after
     @ [TakeRecords (instance_mo d)])
   \<and> (filters d = [] \<and> addedNodes mutation = [a, b] \<and> removedNodes mutation = [] \<longrightarrow>
        observerRouter run s [mutation] (instance_mo d) =
          map (\<lambda>listener. Call listener a NoData) (added (listeners s))
          @ map (\<lambda>listener. Call listener b NoData) (added (listeners s))
          @ [TakeRecords (instance_mo d)])"
    (is "?batch \<and> ?two")
proof -
  have fo: "find_filters (observers s) (instance_mo d) None = Some (filters d)"
    using assms(1,2) by (rule find_filters_hit)
  have general: "?batch"
    using assms(3)
    by (simp add: observerRouter_def fo mutations_loop_append route_mutation_def nodes_loop_eq)
  have two: "?two"
    using assms(3)
    by (simp add: observerRouter_def fo route_mutation_def if_filters_eq call_listeners_eq
          spec_fan_out_def)
  from general two show ?thesis by (rule conjI)
qed

theorem child_list_record_dispatch_witness:
  "distinct (map instance_mo (observers unfiltered_watcher))
   \<and> hd (observers unfiltered_watcher) \<in> set (observers unfiltered_watcher)
   \<and> filters (hd (observers unfiltered_watcher)) = []
   \<and> type_rec two_inserted = ChildList
   \<and> addedNodes two_inserted = [3, 4] \<and> removedNodes two_inserted = []
   \<and> observerRouter (\<lambda>f n. f < n) unfiltered_watcher [two_inserted] 0 =
       [Call 9 3 NoData, Call 10 3 NoData, Call 9 4 NoData, Call 10 4 NoData, TakeRecords 0]"
  using child_list_record_dispatch [of unfiltered_watcher "hd (observers unfiltered_watcher)"
      two_inserted "\<lambda>f n. f < n" "[]" "[]" 3 4]
  by (simp add: router_example_states two_inserted_def spec_fan_out_def)

section \<open>start and unwatch with an id look at the first descriptor only\<close>

lemma start_id_first:
  assumes "observers s = ob # rest" and "id_num ob = i" and "\<not> started ob" and "i \<noteq> 0"
    and "\<forall>x\<in>set rest. id_num x \<noteq> i"
  shows "start (Some i) s =
           (s\<lparr>observers := ob\<lparr>started := True\<rparr> # rest\<rparr>,
            [Observe (instance_mo ob) (target s) (config ob)])"
proof -
  have rest: "start_id_loop (target s) i rest = (rest, [])"
    using assms(5) by (cases rest) auto
  from assms(1-4) show ?thesis by (simp add: start_def truthy_def rest)
qed

lemma start_id_not_first:
  assumes "observers s = ob # rest" and "id_num ob \<noteq> i \<or> started ob" and "i \<noteq> 0"
  shows "start (Some i) s = (s, [])"
  using assms by (auto simp: start_def truthy_def)

lemma unwatch_id_first:
  assumes "observers s = ob # rest" and "id_num ob = i" and "\<not> started ob" and "i \<noteq> 0"
  shows "unwatch (Some i) s = (True, s\<lparr>observers := rest\<rparr>, [Disconnect (instance_mo ob)])"
  using assms by (simp add: unwatch_def unwatch_id_def truthy_def)

lemma unwatch_id_not_first:
  assumes "observers s = ob # rest" and "id_num ob \<noteq> i \<or> started ob" and "i \<noteq> 0"
  shows "unwatch (Some i) s = (False, s, [])"
  using assms by (auto simp: unwatch_def unwatch_id_def truthy_def)

lemma unwatch_id_empty:
  assumes "observers s = []" and "i \<noteq> 0"
  shows "unwatch (Some i) s = (False, s, [])"
  using assms by (auto simp: unwatch_def unwatch_id_def truthy_def)

lemma stop_id_first:
  assumes "observers s = ob # rest" and "id_num ob = i" and "started ob" and "i \<noteq> 0"
    and "\<forall>x\<in>set rest. id_num x \<noteq> i"
  shows "stop (Some i) s =
           (s\<lparr>observers := ob\<lparr>started := False\<rparr> # rest\<rparr>, [Disconnect (instance_mo ob)])"
proof -
  have rest: "stop_id_loop i rest = (rest, [])"
    using assms(5) by (cases rest) auto
  from assms(1-4) show ?thesis by (simp add: stop_def truthy_def rest)
qed

lemma round_trip_empty_registry:
  assumes "observers s = []" and "0 \<le> observerId s" and "observerId s < 2 ^ 53"
    and "mutationKind \<in> {''attributes'', ''characterData'', ''nodes''}"
  shows "round_trip mo mutationKind options s =
           Inr (observerId s + 1, True, s\<lparr>observerId := observerId s + 1\<rparr>, False)"
proof -
  from assms(2,3) have "round_double (observerId s + 1) = observerId s + 1"
    by (intro increment_exact) simp_all
  with assms show ?thesis
    by (auto simp: round_trip_def watch_def start_def stop_def unwatch_def unwatch_id_def
          truthy_def Let_def)
qed

text \<open>
  Claim C2, evaluated on the code. With two registered, unstarted descriptors of ids 1
  and 2, \<open>start(2)\<close> changes nothing and subscribes nothing: the scan ends at the first
  descriptor, whose id is not 2.
\<close>

theorem start_by_id_skips_second_descriptor:
  "map id_num (observers two_watchers) = [1, 2]
   \<and> map started (observers two_watchers) = [False, False]
   \<and> start (Some 2) two_watchers = (two_watchers, [])"
  by (simp add: example_states start_def truthy_def)

text \<open>
  Claim C3, evaluated on the code. With two registered, unstarted descriptors of ids 1
  and 2, \<open>unwatch(2)\<close> returns \<open>false\<close> and removes nothing.
\<close>

theorem unwatch_by_id_skips_second_descriptor:
  "map id_num (observers two_watchers) = [1, 2]
   \<and> map started (observers two_watchers) = [False, False]
   \<and> unwatch (Some 2) two_watchers = (False, two_watchers, [])"
  by (simp add: example_states unwatch_def unwatch_id_def truthy_def)

lemma one_watcher_state:
  "one_watcher =
     \<lparr>target = 0, observerId = 1,
      observers =
        [\<lparr>id_num = 1, instance_mo = 0,
          config = empty_init\<lparr>childList := Some True\<rparr>, filters = [], started = False\<rparr>],
      listeners = \<lparr>added = [], attributeChanged = [], characterDataChanged = [], removed = []\<rparr>\<rparr>"
  by (simp add: one_watcher_def new_Tokan_def watch_def round_double_exact opt_filters_def
        opt_subtree_def
        opt_oldValue_def new_Set_def empty_init_def)

text \<open>
  Claim C4, evaluated on the code. On an instance that already has one watcher, the
  round trip \<open>watch\<close>, \<open>start(id)\<close>, \<open>stop(id)\<close>, \<open>unwatch(id)\<close> gets the id 2, its
  \<open>unwatch(2)\<close> returns \<open>false\<close> and the new descriptor stays registered.
\<close>

theorem round_trip_behind_another_watcher:
  "map id_num (observers one_watcher) = [1]
   \<and> round_trip 1 ''attributes'' None one_watcher = Inr (2, False, two_watchers, False)"
  by (simp add: one_watcher_state example_states round_trip_def watch_def round_double_exact
        start_def stop_def
        unwatch_def unwatch_id_def truthy_def opt_filters_def opt_subtree_def
        opt_oldValue_def new_Set_def empty_init_def Let_def)

end
